theory Spec2Isabelle
  imports Complex_Main
begin

section \<open>The stress metric of the dimensional-reduction lecture\<close>

text \<open>
  The only function the lecture notebook \<^verbatim>\<open>lectures/6-dimensional_reduction.ipynb\<close>
  defines for judging a reduction is
  \<^verbatim>\<open>
  from scipy.spatial.distance import pdist

  def stress(X_reduced, X):
      D_red = pdist(X_reduced)
      D_tot = pdist(X)
      numerator = np.sum((D_tot - D_red)**2)
      denom = np.sum(D_tot**2)
      return np.sqrt(numerator/denom)
  \<close>
  Its first argument is the reduced dataset and its second the original one.

  Arrays: a one-dimensional array is the list of its entries, a two-dimensional array of shape
  \<open>(N, D)\<close> is the list of its \<open>N\<close> rows. A list of rows of unequal lengths is not a
  two-dimensional array; \<^verbatim>\<open>pdist\<close> raises \<^verbatim>\<open>ValueError\<close> when it is not given one.

  Numbers: numpy and scipy compute in IEEE binary64. The function is modelled twice.
  \<^item> \<open>stress\<close> computes in exact arithmetic: a finite float64 is the real number it denotes
    and no operation rounds or overflows; the only special values are those of the division
    \<^verbatim>\<open>numerator/denom\<close> by zero, where numpy does not raise but returns \<^verbatim>\<open>nan\<close> or
    \<^verbatim>\<open>inf\<close>. It is used for what does not depend on rounding: which calls raise, what is
    broadcast, and runs in which every float64 step is exact.
  \<^item> \<open>stress64\<close> computes in float64: every operation rounds the exact result to the nearest
    binary64 number, ties to even, overflows to \<open>inf\<close> and underflows through the subnormal
    numbers to zero; \<open>inf\<close> and \<open>nan\<close> propagate by the IEEE rules. It is used for the claims
    about the returned value.
\<close>

subsection \<open>Values and errors\<close>

datatype error =
    ValueError_not_2d        \<comment> \<open>pdist: a 2-dimensional array must be passed\<close>
  | ValueError_broadcast     \<comment> \<open>numpy: operands could not be broadcast together\<close>

datatype float64 = Fin real | PInf | NInf | NaN

type_synonym ndarray1 = "real list"
type_synonym ndarray2 = "real list list"

subsection \<open>The library calls in exact arithmetic\<close>

text \<open>
  The Euclidean distance of two rows of one array, \<open>sqrt (\<Sum>k. (u\<^sub>k - v\<^sub>k)\<^sup>2)\<close>.
\<close>

definition euclidean :: "real list \<Rightarrow> real list \<Rightarrow> real" where
  "euclidean u v = sqrt (sum_list (map2 (\<lambda>a b. (a - b)\<^sup>2) u v))"

fun is_2d :: "ndarray2 \<Rightarrow> bool" where
  "is_2d [] = True"
| "is_2d (r # rs) = list_all (\<lambda>q. length q = length r) rs"

text \<open>
  The condensed distance vector of \<^verbatim>\<open>pdist\<close>: the distances of the pairs \<open>(i, j)\<close>,
  \<open>i < j\<close>, in the order \<open>(0,1), (0,2), \<dots>, (0,N-1), (1,2), \<dots>, (N-2,N-1)\<close>.
\<close>

fun condensed :: "ndarray2 \<Rightarrow> ndarray1" where
  "condensed [] = []"
| "condensed (p # ps) = map (euclidean p) ps @ condensed ps"

definition pdist :: "ndarray2 \<Rightarrow> error + ndarray1" where
  "pdist X = (if is_2d X then Inr (condensed X) else Inl ValueError_not_2d)"

text \<open>
  \<^verbatim>\<open>a - b\<close> on one-dimensional arrays: elementwise when the lengths agree; an array of
  length one is broadcast against the other; every other pair of lengths raises.
\<close>

definition np_subtract :: "ndarray1 \<Rightarrow> ndarray1 \<Rightarrow> error + ndarray1" where
  "np_subtract a b =
     (if length a = length b then Inr (map2 (\<lambda>x y. x - y) a b)
      else if length a = 1 then Inr (map (\<lambda>y. hd a - y) b)
      else if length b = 1 then Inr (map (\<lambda>x. x - hd b) a)
      else Inl ValueError_broadcast)"

definition np_square :: "ndarray1 \<Rightarrow> ndarray1" where
  "np_square a = map (\<lambda>x. x\<^sup>2) a"

definition np_sum :: "ndarray1 \<Rightarrow> real" where
  "np_sum a = sum_list a"

text \<open>
  Division of two finite float64 scalars: division by zero gives \<open>nan\<close> or \<open>\<plusminus>inf\<close>.
\<close>

definition np_divide :: "real \<Rightarrow> real \<Rightarrow> float64" where
  "np_divide a b =
     (if b = 0 then (if a = 0 then NaN else if 0 < a then PInf else NInf)
      else Fin (a / b))"

fun np_sqrt :: "float64 \<Rightarrow> float64" where
  "np_sqrt (Fin x) = (if x < 0 then NaN else Fin (sqrt x))"
| "np_sqrt PInf = PInf"
| "np_sqrt NInf = NaN"
| "np_sqrt NaN = NaN"

subsection \<open>The stress function in exact arithmetic\<close>

definition stress :: "ndarray2 \<Rightarrow> ndarray2 \<Rightarrow> error + float64" where
  "stress X_reduced X =
     (case pdist X_reduced of
        Inl e \<Rightarrow> Inl e
      | Inr D_red \<Rightarrow>
          (case pdist X of
             Inl e \<Rightarrow> Inl e
           | Inr D_tot \<Rightarrow>
               (case np_subtract D_tot D_red of
                  Inl e \<Rightarrow> Inl e
                | Inr diff \<Rightarrow>
                    (let numerator = np_sum (np_square diff);
                         denom = np_sum (np_square D_tot)
                     in Inr (np_sqrt (np_divide numerator denom))))))"

subsection \<open>Rounding to float64\<close>

text \<open>
  Rounding a real to the nearest integer, ties to the even one.
\<close>

definition rne :: "real \<Rightarrow> int" where
  "rne r = (let f = \<lfloor>r\<rfloor>; d = r - of_int f
            in if d < 1 / 2 then f else if 1 / 2 < d then f + 1
               else if even f then f else f + 1)"

text \<open>
  The spacing of the binary64 numbers around \<open>x > 0\<close>: \<open>2\<^bsup>e-52\<^esup>\<close> with
  \<open>e = \<lfloor>log\<^sub>2 x\<rfloor>\<close>, and \<open>2\<^bsup>-1074\<^esup>\<close> in the subnormal range below \<open>2\<^bsup>-1022\<^esup>\<close>.
  \<open>round_mag\<close> rounds a magnitude to that grid; \<open>round64\<close> adds the sign and the overflow to
  infinity, which happens when the rounded magnitude reaches \<open>2\<^bsup>1024\<^esup>\<close>. The two zeros of
  binary64 are not told apart: the zeros that decide a result here are denominators, sums of
  squares, and those are \<open>+0\<close>.
\<close>

definition ulp :: "real \<Rightarrow> real" where
  "ulp x = 2 powr of_int (max \<lfloor>log 2 x\<rfloor> (- 1022) - 52)"

definition round_mag :: "real \<Rightarrow> real" where
  "round_mag x = of_int (rne (x / ulp x)) * ulp x"

definition round64 :: "real \<Rightarrow> float64" where
  "round64 x =
     (if x = 0 then Fin 0
      else if 2 ^ 1024 \<le> round_mag \<bar>x\<bar> then (if 0 < x then PInf else NInf)
      else Fin (sgn x * round_mag \<bar>x\<bar>))"

subsection \<open>float64 values and operations\<close>

text \<open>
  The order \<^verbatim>\<open><=\<close> of float64: every comparison with \<open>nan\<close> is false.
\<close>

fun fle :: "float64 \<Rightarrow> float64 \<Rightarrow> bool" where
  "fle (Fin a) (Fin b) = (a \<le> b)"
| "fle (Fin a) PInf = True"
| "fle NInf (Fin b) = True"
| "fle NInf NInf = True"
| "fle NInf PInf = True"
| "fle PInf PInf = True"
| "fle _ _ = False"

fun nonneg64 :: "float64 \<Rightarrow> bool" where
  "nonneg64 (Fin a) = (0 \<le> a)"
| "nonneg64 PInf = True"
| "nonneg64 _ = False"

fun finite64 :: "float64 \<Rightarrow> bool" where
  "finite64 (Fin a) = True"
| "finite64 _ = False"

fun finite_nonzero64 :: "float64 \<Rightarrow> bool" where
  "finite_nonzero64 (Fin a) = (a \<noteq> 0)"
| "finite_nonzero64 _ = False"

definition nonneg_or_nan :: "float64 \<Rightarrow> bool" where
  "nonneg_or_nan v \<longleftrightarrow> v = NaN \<or> nonneg64 v"

text \<open>
  The arithmetic operations: on finite operands the exact result, rounded; on \<open>inf\<close> and
  \<open>nan\<close> the IEEE rules (\<open>inf - inf\<close> and \<open>inf / inf\<close> are \<open>nan\<close>, a finite number divided by
  \<open>inf\<close> is zero, the square root of a negative number is \<open>nan\<close>).
\<close>

fun f_neg :: "float64 \<Rightarrow> float64" where
  "f_neg (Fin a) = Fin (- a)"
| "f_neg PInf = NInf"
| "f_neg NInf = PInf"
| "f_neg NaN = NaN"

fun f_add :: "float64 \<Rightarrow> float64 \<Rightarrow> float64" where
  "f_add (Fin a) (Fin b) = round64 (a + b)"
| "f_add NaN y = NaN"
| "f_add x NaN = NaN"
| "f_add PInf NInf = NaN"
| "f_add NInf PInf = NaN"
| "f_add PInf y = PInf"
| "f_add x PInf = PInf"
| "f_add NInf y = NInf"
| "f_add x NInf = NInf"

definition f_sub :: "float64 \<Rightarrow> float64 \<Rightarrow> float64" where
  "f_sub x y = f_add x (f_neg y)"

fun f_square :: "float64 \<Rightarrow> float64" where
  "f_square (Fin a) = round64 (a * a)"
| "f_square PInf = PInf"
| "f_square NInf = PInf"
| "f_square NaN = NaN"

fun f_div :: "float64 \<Rightarrow> float64 \<Rightarrow> float64" where
  "f_div (Fin a) (Fin b) =
     (if b = 0 then (if a = 0 then NaN else if 0 < a then PInf else NInf)
      else round64 (a / b))"
| "f_div (Fin a) PInf = Fin 0"
| "f_div (Fin a) NInf = Fin 0"
| "f_div PInf (Fin b) = (if 0 \<le> b then PInf else NInf)"
| "f_div NInf (Fin b) = (if 0 \<le> b then NInf else PInf)"
| "f_div x y = NaN"

fun f_sqrt :: "float64 \<Rightarrow> float64" where
  "f_sqrt (Fin a) = (if a < 0 then NaN else round64 (sqrt a))"
| "f_sqrt PInf = PInf"
| "f_sqrt NInf = NaN"
| "f_sqrt NaN = NaN"

subsection \<open>The library calls in float64\<close>

text \<open>
  \<^verbatim>\<open>pdist\<close> converts its argument to float64 and computes each distance by the loop
  \<^verbatim>\<open>s = 0; for k: d = u[k] - v[k]; s += d*d; return sqrt(s)\<close>, in coordinate order.
\<close>

definition euclidean64 :: "real list \<Rightarrow> real list \<Rightarrow> float64" where
  "euclidean64 u v =
     f_sqrt (foldl (\<lambda>s (a, b). f_add s (f_square (f_sub (round64 a) (round64 b))))
               (Fin 0) (zip u v))"

fun condensed64 :: "ndarray2 \<Rightarrow> float64 list" where
  "condensed64 [] = []"
| "condensed64 (p # ps) = map (euclidean64 p) ps @ condensed64 ps"

definition pdist64 :: "ndarray2 \<Rightarrow> error + float64 list" where
  "pdist64 X = (if is_2d X then Inr (condensed64 X) else Inl ValueError_not_2d)"

definition np_subtract64 :: "float64 list \<Rightarrow> float64 list \<Rightarrow> error + float64 list" where
  "np_subtract64 a b =
     (if length a = length b then Inr (map2 (\<lambda>x y. f_sub x y) a b)
      else if length a = 1 then Inr (map (\<lambda>y. f_sub (hd a) y) b)
      else if length b = 1 then Inr (map (\<lambda>x. f_sub x (hd b)) a)
      else Inl ValueError_broadcast)"

definition np_square64 :: "float64 list \<Rightarrow> float64 list" where
  "np_square64 a = map f_square a"

text \<open>
  \<^verbatim>\<open>np.sum\<close> adds the entries of an array in an order that is numpy's own (a plain loop for
  fewer than eight entries, sums in blocks for longer arrays), and in float64 the order matters.
  The order is therefore a parameter of the model: \<open>order n\<close> is the tree of additions for an
  array of \<open>n\<close> entries, a leaf standing for an entry. \<open>left_to_right\<close> is the plain loop.
  The theorems below hold for every order; the concrete runs use \<open>left_to_right\<close> on arrays
  of at most three entries.
\<close>

datatype add_tree = Leaf nat | Node add_tree add_tree

fun sum_by :: "add_tree \<Rightarrow> float64 list \<Rightarrow> float64" where
  "sum_by (Leaf i) xs = (if i < length xs then xs ! i else Fin 0)"
| "sum_by (Node l r) xs = f_add (sum_by l xs) (sum_by r xs)"

fun chain :: "nat \<Rightarrow> add_tree" where
  "chain 0 = Leaf 0"
| "chain (Suc n) = Node (chain n) (Leaf (Suc n))"

definition left_to_right :: "nat \<Rightarrow> add_tree" where
  "left_to_right n = chain (n - 1)"

definition np_sum64 :: "(nat \<Rightarrow> add_tree) \<Rightarrow> float64 list \<Rightarrow> float64" where
  "np_sum64 order a = (if a = [] then Fin 0 else sum_by (order (length a)) a)"

subsection \<open>The stress function in float64\<close>

definition stress64 :: "(nat \<Rightarrow> add_tree) \<Rightarrow> ndarray2 \<Rightarrow> ndarray2 \<Rightarrow> error + float64" where
  "stress64 order X_reduced X =
     (case pdist64 X_reduced of
        Inl e \<Rightarrow> Inl e
      | Inr D_red \<Rightarrow>
          (case pdist64 X of
             Inl e \<Rightarrow> Inl e
           | Inr D_tot \<Rightarrow>
               (case np_subtract64 D_tot D_red of
                  Inl e \<Rightarrow> Inl e
                | Inr diff \<Rightarrow>
                    (let numerator = np_sum64 order (np_square64 diff);
                         denom = np_sum64 order (np_square64 D_tot)
                     in Inr (f_sqrt (f_div numerator denom))))))"

subsection \<open>The formula of the specification\<close>

text \<open>
  The specification states the metric over index pairs: with \<open>d\<^sub>i\<^sub>j\<close> the Euclidean distance of
  the points \<open>i\<close> and \<open>j\<close> of the original dataset and \<open>e\<^sub>i\<^sub>j\<close> that of the reduced one,
  \<open>stress = sqrt (\<Sum>\<^bsub>i<j\<^esub> (d\<^sub>i\<^sub>j - e\<^sub>i\<^sub>j)\<^sup>2 / \<Sum>\<^bsub>i<j\<^esub> d\<^sub>i\<^sub>j\<^sup>2)\<close>. The definitions below follow these
  words, first over the real numbers.
\<close>

definition d_ij :: "ndarray2 \<Rightarrow> nat \<Rightarrow> nat \<Rightarrow> real" where
  "d_ij X i j = euclidean (X ! i) (X ! j)"

definition sq_error_sum :: "ndarray2 \<Rightarrow> ndarray2 \<Rightarrow> real" where
  "sq_error_sum original reduced =
     (\<Sum>i<length original. \<Sum>j=Suc i..<length original.
        (d_ij original i j - d_ij reduced i j)\<^sup>2)"

definition sq_dist_sum :: "ndarray2 \<Rightarrow> real" where
  "sq_dist_sum original =
     (\<Sum>i<length original. \<Sum>j=Suc i..<length original. (d_ij original i j)\<^sup>2)"


text \<open>
  The same formula with every operation in float64: the pairs \<open>i < j\<close> in the order of the
  condensed vector, the float64 distances \<open>d64\<close>, the squared error of one pair, the two arrays
  that are summed, and the quotient and root.
\<close>

definition pairs :: "nat \<Rightarrow> (nat \<times> nat) list" where
  "pairs n = concat (map (\<lambda>i. map (Pair i) [Suc i..<n]) [0..<n])"

definition d64 :: "ndarray2 \<Rightarrow> nat \<Rightarrow> nat \<Rightarrow> float64" where
  "d64 X i j = euclidean64 (X ! i) (X ! j)"

definition sq_error64 :: "ndarray2 \<Rightarrow> ndarray2 \<Rightarrow> nat \<Rightarrow> nat \<Rightarrow> float64" where
  "sq_error64 original reduced i j = f_square (f_sub (d64 original i j) (d64 reduced i j))"

definition sq_errors64 :: "ndarray2 \<Rightarrow> ndarray2 \<Rightarrow> float64 list" where
  "sq_errors64 original reduced =
     map (\<lambda>(i, j). sq_error64 original reduced i j) (pairs (length original))"

definition sq_dists64 :: "ndarray2 \<Rightarrow> float64 list" where
  "sq_dists64 original = map (\<lambda>(i, j). f_square (d64 original i j)) (pairs (length original))"

definition spec_stress64 :: "(nat \<Rightarrow> add_tree) \<Rightarrow> ndarray2 \<Rightarrow> ndarray2 \<Rightarrow> float64" where
  "spec_stress64 order original reduced =
     f_sqrt (f_div (np_sum64 order (sq_errors64 original reduced))
                   (np_sum64 order (sq_dists64 original)))"




text \<open>
  Two float64 numbers used as coordinates: one whose square overflows and one whose square
  underflows to zero.
\<close>

definition huge :: real where
  "huge = 2 ^ 600"

definition tiny :: real where
  "tiny = 1 / 2 ^ 600"

section \<open>Properties of the condensed distance vector\<close>

lemma length_condensed: "length (condensed X) = length X * (length X - 1) div 2"
proof (induction X)
  case Nil show ?case by simp
next
  case (Cons p ps)
  have "even (length ps * (length ps - 1))" by (cases "length ps") auto
  then show ?case using Cons by (cases "length ps") (auto simp: algebra_simps)
qed

lemma condensed_two: "length R = 2 \<Longrightarrow> condensed R = [euclidean (R ! 0) (R ! 1)]"
  by (cases R; cases "tl R") auto

lemma length_condensed_mono:
  "length A \<le> length B \<Longrightarrow> length (condensed A) \<le> length (condensed B)"
proof (induction A arbitrary: B)
  case Nil show ?case by simp
next
  case (Cons a A)
  then obtain b B' where B: "B = b # B'" by (cases B) auto
  with Cons show ?case by (simp add: add_mono)
qed

lemma length_condensed_strict:
  "length A < length B \<Longrightarrow> 2 \<le> length B \<Longrightarrow> length (condensed A) < length (condensed B)"
proof -
  assume lt: "length A < length B" and two: "2 \<le> length B"
  then obtain b B' where B: "B = b # B'" by (cases B) auto
  have "length (condensed A) \<le> length (condensed B')"
    using lt B by (intro length_condensed_mono) simp
  moreover have "0 < length B'" using two B by (cases B') simp_all
  moreover have "length (condensed B) = length B' + length (condensed B')" using B by simp
  ultimately show ?thesis by linarith
qed

lemma length_condensed_eq_1: "length (condensed X) = Suc 0 \<longleftrightarrow> length X = 2"
proof
  assume one: "length (condensed X) = Suc 0"
  show "length X = 2"
  proof (rule ccontr)
    assume ne: "length X \<noteq> 2"
    show False
    proof (cases "length X < 2")
      case True
      then have "length (condensed X) = 0"
        by (cases X; cases "tl X") auto
      with one show False by simp
    next
      case False
      with ne have "length [[], [], []::real list] \<le> length X" by simp
      from length_condensed_mono [OF this] one show False by simp
    qed
  qed
next
  assume "length X = 2"
  then show "length (condensed X) = Suc 0" by (simp add: condensed_two)
qed

lemma length_condensed_eq_iff:
  "length (condensed A) = length (condensed B) \<longleftrightarrow>
   length A = length B \<or> (length A < 2 \<and> length B < 2)"
proof -
  have small: "length (condensed X) = 0" if "length X < 2" for X :: ndarray2
    using that by (cases X; cases "tl X") auto
  show ?thesis
  proof (cases "length A = length B")
    case True
    then show ?thesis by (simp add: length_condensed)
  next
    case False
    show ?thesis
    proof (cases "length A < 2 \<and> length B < 2")
      case True
      then show ?thesis by (simp add: small)
    next
      case nsmall: False
      have "length (condensed A) \<noteq> length (condensed B)"
      proof (cases "length A < length B")
        case True
        with nsmall have "2 \<le> length B" by linarith
        from length_condensed_strict [OF True this] show ?thesis by simp
      next
        case nlt: False
        with False have lt: "length B < length A" by simp
        with nsmall have "2 \<le> length A" by linarith
        from length_condensed_strict [OF lt this] show ?thesis by simp
      qed
      with False nsmall show ?thesis by simp
    qed
  qed
qed

lemma is_2d_same_dim: "list_all (\<lambda>r. length r = D) X \<Longrightarrow> is_2d X"
  by (cases X) (auto simp: list_all_iff)

lemma euclidean_same: "euclidean u u = 0"
  by (simp add: euclidean_def zip_same_conv_map comp_def)

text \<open>
  Summing over the condensed vectors of two arrays with the same number of rows is summing over
  the index pairs \<open>i < j\<close>.
\<close>

lemma sum_list_map2_nth:
  "length xs = length ys \<Longrightarrow>
   sum_list (map2 f xs ys) = (\<Sum>j<length xs. (f (xs ! j) (ys ! j) :: real))"
proof (induction xs ys rule: list_induct2)
  case Nil show ?case by simp
next
  case (Cons x xs y ys)
  then show ?case by (simp del: sum.lessThan_Suc add: sum.lessThan_Suc_shift)
qed

lemma sum_condensed2:
  "length A = length B \<Longrightarrow>
   sum_list (map2 f (condensed A) (condensed B)) =
   (\<Sum>i<length A. \<Sum>j=Suc i..<length A.
       (f (euclidean (A ! i) (A ! j)) (euclidean (B ! i) (B ! j)) :: real))"
proof (induction A B rule: list_induct2)
  case Nil show ?case by simp
next
  case (Cons a A b B)
  have row: "sum_list (map2 f (map (euclidean a) A) (map (euclidean b) B)) =
         (\<Sum>j<length A. f (euclidean a (A ! j)) (euclidean b (B ! j)))"
    using Cons.hyps by (simp add: sum_list_map2_nth)
  have "sum_list (map2 f (condensed (a # A)) (condensed (b # B))) =
        sum_list (map2 f (map (euclidean a) A) (map (euclidean b) B)) +
        sum_list (map2 f (condensed A) (condensed B))"
    using Cons.hyps by (simp add: length_condensed)
  also have "\<dots> = (\<Sum>j<length A. f (euclidean a (A ! j)) (euclidean b (B ! j))) +
        (\<Sum>i<length A. \<Sum>j=Suc i..<length A.
            f (euclidean (A ! i) (A ! j)) (euclidean (B ! i) (B ! j)))"
    using row Cons.IH by simp
  also have "\<dots> = (\<Sum>i<length (a # A). \<Sum>j=Suc i..<length (a # A).
       f (euclidean ((a # A) ! i) ((a # A) ! j)) (euclidean ((b # B) ! i) ((b # B) ! j)))"
    by (simp del: sum.lessThan_Suc sum.op_ivl_Suc add: sum.atLeast0_lessThan_Suc_shift sum.shift_bounds_Suc_ivl lessThan_atLeast0)
  finally show ?case .
qed

lemma sq_error_sum_nonneg: "0 \<le> sq_error_sum original reduced"
  unfolding sq_error_sum_def by (intro sum_nonneg) simp


lemma np_sum_sq_diff:
  "length X = length R \<Longrightarrow>
   np_sum (np_square (map2 (\<lambda>x y. x - y) (condensed X) (condensed R))) = sq_error_sum X R"
proof -
  assume len: "length X = length R"
  have "np_sum (np_square (map2 (\<lambda>x y. x - y) (condensed X) (condensed R))) =
        sum_list (map2 (\<lambda>x y. (x - y)\<^sup>2) (condensed X) (condensed R))"
    by (simp add: np_sum_def np_square_def case_prod_unfold comp_def)
  also have "\<dots> = sq_error_sum X R"
    using sum_condensed2 [OF len, of "\<lambda>x y. (x - y)\<^sup>2"]
    by (simp add: sq_error_sum_def d_ij_def)
  finally show ?thesis .
qed

lemma np_sum_sq_dist: "np_sum (np_square (condensed X)) = sq_dist_sum X"
proof -
  have "np_sum (np_square (condensed X)) =
        sum_list (map2 (\<lambda>x y. x\<^sup>2) (condensed X) (condensed X))"
    by (simp add: np_sum_def np_square_def zip_same_conv_map comp_def)
  also have "\<dots> = sq_dist_sum X"
    using sum_condensed2 [of X X "\<lambda>x y. x\<^sup>2"]
    by (simp add: sq_dist_sum_def d_ij_def)
  finally show ?thesis .
qed

section \<open>What the code computes in exact arithmetic\<close>

text \<open>
  With equal point counts nothing is broadcast, and the code divides the two sums of the
  specification, whatever the denominator is.
\<close>

lemma stress_equal_counts:
  assumes "is_2d X_reduced" and "is_2d X" and "length X_reduced = length X"
  shows "stress X_reduced X = Inr (np_sqrt (np_divide (sq_error_sum X X_reduced) (sq_dist_sum X)))"
proof -
  have len: "length (condensed X) = length (condensed X_reduced)"
    using assms(3) by (simp add: length_condensed)
  have sub: "np_subtract (condensed X) (condensed X_reduced) =
             Inr (map2 (\<lambda>x y. x - y) (condensed X) (condensed X_reduced))"
    using len by (simp add: np_subtract_def)
  show ?thesis
    using assms(1,2) np_sum_sq_diff [of X X_reduced] assms(3)
    by (simp add: stress_def pdist_def sub np_sum_sq_dist)
qed

text \<open>
  The call raises exactly when the two condensed vectors differ in length and neither has
  length one.
\<close>

lemma stress_raises_iff:
  assumes "is_2d A" and "is_2d B"
  shows "stress A B = Inl ValueError_broadcast \<longleftrightarrow>
         length A \<noteq> length B \<and> length A \<noteq> 2 \<and> length B \<noteq> 2 \<and>
         (2 \<le> length A \<or> 2 \<le> length B)"
proof -
  have "stress A B = Inl ValueError_broadcast \<longleftrightarrow>
        length (condensed B) \<noteq> length (condensed A) \<and>
        length (condensed B) \<noteq> 1 \<and> length (condensed A) \<noteq> 1"
    using assms by (simp add: stress_def pdist_def np_subtract_def Let_def)
  also have "\<dots> \<longleftrightarrow> length A \<noteq> length B \<and> length A \<noteq> 2 \<and> length B \<noteq> 2 \<and>
         (2 \<le> length A \<or> 2 \<le> length B)"
    by (auto simp: length_condensed_eq_iff length_condensed_eq_1)
  finally show ?thesis .
qed

lemmas eval_sums = sq_dist_sum_def sq_error_sum_def d_ij_def euclidean_def
  lessThan_Suc numeral_3_eq_3 numeral_2_eq_2

section \<open>Properties of rounding\<close>

lemma rne_of_int [simp]: "rne (of_int n) = n"
  by (simp add: rne_def)

lemma rne_numeral [simp]: "rne (numeral w) = numeral w"
  using rne_of_int [of "numeral w"] by simp

lemma rne_bounds: "\<lfloor>r\<rfloor> \<le> rne r \<and> rne r \<le> \<lfloor>r\<rfloor> + 1"
  by (simp add: rne_def Let_def)

lemma rne_mono: "r \<le> s \<Longrightarrow> rne r \<le> rne s"
proof -
  assume le: "r \<le> s"
  then have fl: "\<lfloor>r\<rfloor> \<le> \<lfloor>s\<rfloor>" by (rule floor_mono)
  show ?thesis
  proof (cases "\<lfloor>r\<rfloor> = \<lfloor>s\<rfloor>")
    case True
    then show ?thesis using le by (auto simp: rne_def Let_def)
  next
    case False
    with fl have "\<lfloor>r\<rfloor> + 1 \<le> \<lfloor>s\<rfloor>" by simp
    then show ?thesis using rne_bounds [of r] rne_bounds [of s] by linarith
  qed
qed

lemma rne_ge: "of_int n \<le> r \<Longrightarrow> n \<le> rne r"
  using rne_mono [of "of_int n" r] by simp

lemma rne_le: "r \<le> of_int n \<Longrightarrow> rne r \<le> n"
  using rne_mono [of r "of_int n"] by simp

lemma rne_near: "of_int m - 1 / 2 < r \<Longrightarrow> r < of_int m + 1 / 2 \<Longrightarrow> rne r = m"
proof -
  assume lo: "of_int m - 1 / 2 < r" and hi: "r < of_int m + 1 / 2"
  have fl: "\<lfloor>r\<rfloor> = m \<or> \<lfloor>r\<rfloor> = m - 1"
    using lo hi by linarith
  then show ?thesis
  proof
    assume f: "\<lfloor>r\<rfloor> = m"
    then have "r - of_int \<lfloor>r\<rfloor> < 1 / 2" using hi by simp
    then show ?thesis using f by (simp add: rne_def Let_def)
  next
    assume f: "\<lfloor>r\<rfloor> = m - 1"
    then have "1 / 2 < r - of_int \<lfloor>r\<rfloor>" using lo by simp
    then show ?thesis using f by (simp add: rne_def Let_def)
  qed
qed

lemma rne_tie_even: "r = of_int m + 1 / 2 \<Longrightarrow> even m \<Longrightarrow> rne r = m"
proof -
  assume r: "r = of_int m + 1 / 2" and ev: "even m"
  have "\<lfloor>r\<rfloor> = m" unfolding r by linarith
  then show ?thesis using r ev by (simp add: rne_def Let_def)
qed

lemma ulp_pos: "0 < ulp x"
  by (simp add: ulp_def)

lemma round_mag_nonneg: "0 \<le> x \<Longrightarrow> 0 \<le> round_mag x"
proof -
  assume "0 \<le> x"
  then have "0 \<le> x / ulp x" using ulp_pos [of x] by simp
  then have "0 \<le> rne (x / ulp x)" using rne_ge [of 0] by simp
  then show ?thesis using ulp_pos [of x] by (simp add: round_mag_def)
qed

lemma floor_log2_less: "0 < x \<Longrightarrow> x < 2 powr (of_int \<lfloor>log 2 x\<rfloor> + 1)"
  using floor_log_eq_powr_iff [of x 2 "\<lfloor>log 2 x\<rfloor>"] by simp

lemma floor_log2_le: "0 < x \<Longrightarrow> 2 powr of_int \<lfloor>log 2 x\<rfloor> \<le> x"
  using floor_log_eq_powr_iff [of x 2 "\<lfloor>log 2 x\<rfloor>"] by simp

lemma floor_log2_upper: "0 < x \<Longrightarrow> x < 2 powr of_int k \<Longrightarrow> \<lfloor>log 2 x\<rfloor> < k"
proof -
  assume pos: "0 < x" and lt: "x < 2 powr of_int k"
  have "(2::real) powr of_int \<lfloor>log 2 x\<rfloor> < 2 powr of_int k"
    using floor_log2_le [OF pos] lt by (rule order_le_less_trans)
  then have "(of_int \<lfloor>log 2 x\<rfloor> :: real) < of_int k" by simp
  then show ?thesis by (simp only: of_int_less_iff)
qed

lemma floor_log2_lower: "0 < x \<Longrightarrow> 2 powr of_int k \<le> x \<Longrightarrow> k \<le> \<lfloor>log 2 x\<rfloor>"
proof -
  assume pos: "0 < x" and le: "2 powr of_int k \<le> x"
  have "(2::real) powr of_int k < 2 powr (of_int \<lfloor>log 2 x\<rfloor> + 1)"
    using le floor_log2_less [OF pos] by (rule order_le_less_trans)
  then have "of_int k < (of_int \<lfloor>log 2 x\<rfloor> + 1 :: real)" by simp
  then show ?thesis by linarith
qed

lemma floor_log2_mono: "0 < x \<Longrightarrow> x \<le> y \<Longrightarrow> \<lfloor>log 2 x\<rfloor> \<le> \<lfloor>log 2 y\<rfloor>"
  by (intro floor_mono) simp

lemma powr_int_nat: "(2::real) powr of_int (int k) = 2 ^ k"
  using powr_realpow [of 2 k] by simp

lemma powr_int_neg_nat: "(2::real) powr of_int (- int k) = 1 / 2 ^ k"
  using powr_realpow [of 2 k] by (simp add: powr_minus_divide)

text \<open>
  A number with a mantissa below \<open>2\<^bsup>53\<^esup>\<close> and an exponent in range is left as it is.
\<close>

lemma ulp_exact:
  assumes "0 < m" and "m < 2 ^ 53" and "- 1074 \<le> k"
  shows "round_mag (of_int m * 2 powr of_int k) = of_int m * 2 powr of_int k"
proof -
  let ?x = "of_int m * 2 powr of_int k :: real"
  have pos: "0 < ?x" using assms(1) by simp
  have "(of_int m :: real) < of_int (2 ^ 53)" using assms(2) by (simp only: of_int_less_iff)
  then have "of_int m < (2 ^ 53 :: real)" by simp
  then have "?x < 2 ^ 53 * 2 powr of_int k" by simp
  also have "\<dots> = 2 powr of_int (53 + k)" by (simp add: powr_add)
  finally have "\<lfloor>log 2 ?x\<rfloor> < 53 + k" using pos by (intro floor_log2_upper)
  then have g: "max \<lfloor>log 2 ?x\<rfloor> (- 1022) - 52 \<le> k" using assms(3) by simp
  define g where "g = max \<lfloor>log 2 ?x\<rfloor> (- 1022) - 52"
  have u: "ulp ?x = 2 powr of_int g" by (simp add: ulp_def g_def)
  have "0 \<le> k - g" using g by (simp add: g_def)
  then have pw: "2 powr (of_int k - of_int g) = (2::real) ^ nat (k - g)"
    using powr_realpow [of 2 "nat (k - g)"] by simp
  have "?x / ulp ?x = of_int m * (2 powr of_int k / 2 powr of_int g)"
    by (simp add: u)
  also have "\<dots> = of_int m * 2 powr (of_int k - of_int g)"
    by (simp only: powr_diff)
  also have "\<dots> = of_int (m * 2 ^ nat (k - g))"
    by (simp add: pw)
  finally have "?x / ulp ?x = of_int (m * 2 ^ nat (k - g))" .
  then have "rne (?x / ulp ?x) = m * 2 ^ nat (k - g)"
    by (simp only: rne_of_int)
  then have "round_mag ?x = of_int (m * 2 ^ nat (k - g)) * 2 powr of_int g"
    by (simp add: round_mag_def u)
  also have "\<dots> = of_int m * (2 powr (of_int k - of_int g) * 2 powr of_int g)"
    by (simp add: pw)
  also have "\<dots> = of_int m * 2 powr (of_int k - of_int g + of_int g)"
    by (simp only: powr_add)
  also have "\<dots> = ?x" by simp
  finally show ?thesis .
qed

text \<open>
  Rounding is monotone.
\<close>

lemma round_mag_mono:
  assumes "0 < x" and "x \<le> y"
  shows "round_mag x \<le> round_mag y"
proof -
  have ypos: "0 < y" using assms by simp
  define ex where "ex = max \<lfloor>log 2 x\<rfloor> (- 1022)"
  define ey where "ey = max \<lfloor>log 2 y\<rfloor> (- 1022)"
  have ux: "ulp x = 2 powr of_int (ex - 52)" and uy: "ulp y = 2 powr of_int (ey - 52)"
    by (simp_all add: ulp_def ex_def ey_def)
  have le: "ex \<le> ey"
    using floor_log2_mono [OF assms] by (simp add: ex_def ey_def)
  show ?thesis
  proof (cases "ex = ey")
    case True
    then have same: "ulp x = ulp y" by (simp add: ux uy)
    have "x / ulp y \<le> y / ulp y" using assms(2) ulp_pos [of y] by (simp add: divide_right_mono)
    then have "rne (x / ulp y) \<le> rne (y / ulp y)" by (rule rne_mono)
    then show ?thesis using ulp_pos [of y] by (simp add: round_mag_def same)
  next
    case False
    with le have lt: "ex + 1 \<le> ey" by simp
    then have "- 1022 < ey" by (simp add: ex_def)
    then have ey_log: "ey = \<lfloor>log 2 y\<rfloor>" by (simp add: ey_def)
    have "x < 2 powr (of_int \<lfloor>log 2 x\<rfloor> + 1)" using assms(1) by (rule floor_log2_less)
    also have "\<dots> \<le> 2 powr (of_int ex + 1)" by (simp add: ex_def)
    finally have xlt: "x < 2 powr (of_int ex + 1)" .
    have "x / ulp x \<le> 2 powr (of_int ex + 1) / 2 powr of_int (ex - 52)"
      using xlt by (simp add: ux divide_right_mono)
    also have "\<dots> = 2 powr 53" by (simp add: powr_diff [symmetric])
    also have "\<dots> = of_int (2 ^ 53)" by simp
    finally have "rne (x / ulp x) \<le> 2 ^ 53" by (rule rne_le)
    then have "(of_int (rne (x / ulp x)) :: real) \<le> of_int (2 ^ 53)"
      by (simp only: of_int_le_iff)
    then have "of_int (rne (x / ulp x)) \<le> (2 ^ 53 :: real)" by simp
    then have "round_mag x \<le> 2 ^ 53 * 2 powr of_int (ex - 52)"
      by (simp add: round_mag_def ux)
    also have "\<dots> = 2 powr 53 * 2 powr of_int (ex - 52)" by simp
    also have "\<dots> = 2 powr (53 + of_int (ex - 52))" by (simp only: powr_add)
    also have "\<dots> = 2 powr (of_int ex + 1)" by (simp add: algebra_simps)
    also have "\<dots> \<le> 2 powr of_int ey" using lt by simp
    finally have upper: "round_mag x \<le> 2 powr of_int ey" .
    have "2 powr of_int ey \<le> y" using ypos by (simp add: ey_log floor_log2_le)
    then have "2 powr of_int ey / 2 powr of_int (ey - 52) \<le> y / ulp y"
      by (simp add: uy divide_right_mono)
    moreover have "2 powr of_int ey / 2 powr of_int (ey - 52) = (2 powr 52 :: real)"
      by (simp add: powr_diff [symmetric])
    moreover have "(2 powr 52 :: real) = of_int (2 ^ 52)" by simp
    ultimately have "of_int (2 ^ 52) \<le> y / ulp y" by simp
    then have "2 ^ 52 \<le> rne (y / ulp y)" by (rule rne_ge)
    then have "(of_int (2 ^ 52) :: real) \<le> of_int (rne (y / ulp y))"
      by (simp only: of_int_le_iff)
    then have "(2 ^ 52 :: real) \<le> of_int (rne (y / ulp y))" by simp
    then have "2 ^ 52 * 2 powr of_int (ey - 52) \<le> round_mag y"
      by (simp add: round_mag_def uy)
    moreover have "2 ^ 52 * 2 powr of_int (ey - 52) = (2 powr of_int ey :: real)"
    proof -
      have "2 ^ 52 * 2 powr of_int (ey - 52) = (2 powr 52 * 2 powr of_int (ey - 52) :: real)"
        by simp
      also have "\<dots> = 2 powr (52 + of_int (ey - 52))" by (simp only: powr_add)
      also have "\<dots> = 2 powr of_int ey" by (simp add: algebra_simps)
      finally show ?thesis .
    qed
    ultimately have "2 powr of_int ey \<le> round_mag y" by simp
    with upper show ?thesis by simp
  qed
qed

lemma round64_0 [simp]: "round64 0 = Fin 0"
  by (simp add: round64_def)

lemma round64_nonneg: "0 \<le> x \<Longrightarrow> nonneg64 (round64 x)"
  using round_mag_nonneg [of "\<bar>x\<bar>"] by (simp add: round64_def)

lemma round64_mono:
  assumes "0 \<le> x" and "x \<le> y"
  shows "fle (round64 x) (round64 y)"
proof (cases "x = 0")
  case True
  then show ?thesis
    using round64_nonneg [of y] assms by (cases "round64 y") simp_all
next
  case False
  with assms have pos: "0 < x" "0 < y" by simp_all
  have "round_mag x \<le> round_mag y" using pos(1) assms(2) by (rule round_mag_mono)
  then show ?thesis using pos by (simp add: round64_def)
qed

lemma round64_exact:
  assumes "0 < m" and "m < 2 ^ 53" and "- 1074 \<le> k"
    and "of_int m * 2 powr of_int k < (2 ^ 1024 :: real)"
  shows "round64 (of_int m * 2 powr of_int k) = Fin (of_int m * 2 powr of_int k)"
    and "round64 (- (of_int m * 2 powr of_int k)) = Fin (- (of_int m * 2 powr of_int k))"
  using assms ulp_exact [OF assms(1-3)] by (simp_all add: round64_def)

lemma round64_int:
  assumes "\<bar>n\<bar> < 2 ^ 53"
  shows "round64 (of_int n) = Fin (of_int n)"
proof -
  have small: "of_int m * 2 powr of_int 0 < (2 ^ 1024 :: real)" if "m < 2 ^ 53" for m :: int
  proof -
    have "(of_int m :: real) < of_int (2 ^ 53)" using that by (simp only: of_int_less_iff)
    then show ?thesis by simp
  qed
  consider "n = 0" | "0 < n" | "n < 0" by linarith
  then show ?thesis
  proof cases
    case 1 then show ?thesis by simp
  next
    case 2
    with assms have "n < 2 ^ 53" by simp
    from round64_exact(1) [OF 2 this _ small [OF this]] show ?thesis by simp
  next
    case 3
    with assms have pos: "0 < - n" and lt: "- n < 2 ^ 53" by simp_all
    from round64_exact(2) [OF pos lt _ small [OF lt]] show ?thesis by simp
  qed
qed

lemma round64_numeral [simp]:
  "numeral w < (2 ^ 53 :: int) \<Longrightarrow> round64 (numeral w) = Fin (numeral w)"
  "numeral w < (2 ^ 53 :: int) \<Longrightarrow> round64 (- numeral w) = Fin (- numeral w)"
  using round64_int [of "numeral w"] round64_int [of "- numeral w"] by simp_all

lemma round64_1 [simp]: "round64 1 = Fin 1" "round64 (- 1) = Fin (- 1)"
  using round64_int [of 1] round64_int [of "- 1"] by simp_all

lemma round64_pow2:
  assumes "n < 1024"
  shows "round64 (2 ^ n) = Fin (2 ^ n)" and "round64 (- (2 ^ n)) = Fin (- (2 ^ n))"
proof -
  have eq: "of_int 1 * 2 powr of_int (int n) = (2 ^ n :: real)"
    using powr_realpow [of 2 n] by simp
  have "(2 ^ n :: real) < 2 ^ 1024" using assms by (intro power_strict_increasing) simp_all
  then have lt: "of_int 1 * 2 powr of_int (int n) < (2 ^ 1024 :: real)" by (simp only: eq)
  have a: "(0::int) < 1" and b: "(1::int) < 2 ^ 53" and c: "- 1074 \<le> int n" by simp_all
  from round64_exact [OF a b c lt] show "round64 (2 ^ n) = Fin (2 ^ n)"
    and "round64 (- (2 ^ n)) = Fin (- (2 ^ n))" by (simp_all only: eq)
qed

text \<open>
  Overflow and underflow.
\<close>

lemma round64_overflow:
  assumes "2 ^ 1024 \<le> x"
  shows "round64 x = PInf"
proof -
  have big: "(0::real) < 2 ^ 1024" by simp
  have "round_mag (of_int 1 * 2 powr of_int 1024) = of_int 1 * 2 powr of_int 1024"
    by (rule ulp_exact) simp_all
  then have "round_mag (2 ^ 1024) = 2 ^ 1024" by simp
  moreover have "round_mag (2 ^ 1024) \<le> round_mag x" using big assms by (rule round_mag_mono)
  ultimately have "2 ^ 1024 \<le> round_mag \<bar>x\<bar>" using assms by simp
  then show ?thesis using assms by (simp add: round64_def)
qed

lemma round64_underflow:
  assumes "0 < x" and "x < 1 / 2 ^ 1075"
  shows "round64 x = Fin 0"
proof -
  have "x < 2 powr of_int (- int 1075)"
    using assms(2) powr_int_neg_nat [of 1075] by simp
  moreover have "(2::real) powr of_int (- int 1075) \<le> 2 powr of_int (- 1022)"
    by (intro powr_mono) simp_all
  ultimately have "x < 2 powr of_int (- 1022)" by (rule less_le_trans)
  then have "\<lfloor>log 2 x\<rfloor> < - 1022" using assms(1) by (intro floor_log2_upper)
  then have u: "ulp x = 2 powr of_int (- int 1074)" by (simp add: ulp_def max_def)
  then have u': "ulp x = 1 / 2 ^ 1074" using powr_int_neg_nat [of 1074] by simp
  have "x * 2 ^ 1074 < 1 / 2" using assms(2) by (simp add: field_simps)
  moreover have "0 < x * 2 ^ 1074" using assms(1) by simp
  ultimately have "rne (x * 2 ^ 1074) = 0"
    using rne_near [of 0 "x * 2 ^ 1074"] by simp
  then have "round_mag x = 0" by (simp add: round_mag_def u')
  then show ?thesis using assms(1) by (simp add: round64_def)
qed

text \<open>
  Rounding a given number: its binade, and the integer nearest to it on the grid of that
  binade.
\<close>

lemma round64_by_grid:
  assumes "0 < x" and "2 powr of_int e \<le> x" and "x < 2 powr of_int (e + 1)" and "- 1022 \<le> e"
    and "rne (x / 2 powr of_int (e - 52)) = m"
    and "of_int m * 2 powr of_int (e - 52) < (2 ^ 1024 :: real)"
  shows "round64 x = Fin (of_int m * 2 powr of_int (e - 52))"
proof -
  have "\<lfloor>log 2 x\<rfloor> = e"
    using assms(1-3) floor_log_eq_powr_iff [of x 2 e] by simp
  then have "ulp x = 2 powr of_int (e - 52)"
    using assms(4) by (simp add: ulp_def)
  then have "round_mag x = of_int m * 2 powr of_int (e - 52)"
    using assms(5) by (simp add: round_mag_def)
  then show ?thesis using assms(1,6) by (simp add: round64_def)
qed

lemma round64_grid_up:
  assumes "2 ^ (52 + k) \<le> x" and "x < 2 ^ (53 + k)"
    and "rne (x / 2 ^ k) = m" and "of_int m * 2 ^ k < (2 ^ 1024 :: real)"
  shows "round64 x = Fin (of_int m * 2 ^ k)"
proof -
  have pos: "0 < x" using assms(1) by (rule less_le_trans [rotated]) simp
  have e1: "(2::real) powr of_int (int (52 + k)) = 2 ^ (52 + k)" by (rule powr_int_nat)
  have e2: "(2::real) powr of_int (int (52 + k) + 1) = 2 ^ (53 + k)"
    using powr_int_nat [of "53 + k"] by (simp add: algebra_simps)
  have e3: "(2::real) powr of_int (int (52 + k) - 52) = 2 ^ k"
    using powr_int_nat [of k] by simp
  show ?thesis
    using round64_by_grid [of x "int (52 + k)" m] pos assms
    by (simp only: e1 e2 e3)
qed

lemma round64_grid_down:
  assumes "k \<le> 1074" and "2 ^ 52 \<le> x * 2 ^ k" and "x * 2 ^ k < 2 ^ 53"
    and "rne (x * 2 ^ k) = m"
  shows "round64 x = Fin (of_int m / 2 ^ k)"
proof -
  have "0 < x * 2 ^ k" using assms(2) by (rule less_le_trans [rotated]) simp
  then have pos: "0 < x" by (simp add: zero_less_mult_iff)
  define e where "e = 52 - int k"
  have e3: "(2::real) powr of_int (e - 52) = 1 / 2 ^ k"
    using powr_int_neg_nat [of k] by (simp add: e_def)
  have "of_int e = (52::real) + of_int (- int k)" by (simp add: e_def)
  then have "(2::real) powr of_int e = 2 powr 52 * 2 powr of_int (- int k)"
    by (simp only: powr_add)
  then have e1: "(2::real) powr of_int e = 2 ^ 52 / 2 ^ k"
    using powr_int_neg_nat [of k] by simp
  have "of_int (e + 1) = (53::real) + of_int (- int k)" by (simp add: e_def)
  then have "(2::real) powr of_int (e + 1) = 2 powr 53 * 2 powr of_int (- int k)"
    by (simp only: powr_add)
  then have e2: "(2::real) powr of_int (e + 1) = 2 ^ 53 / 2 ^ k"
    using powr_int_neg_nat [of k] by simp
  have lo: "2 powr of_int e \<le> x" using assms(2) unfolding e1 by (simp add: field_simps)
  have hi: "x < 2 powr of_int (e + 1)" using assms(3) unfolding e2 by (simp add: field_simps)
  have range: "- 1022 \<le> e" using assms(1) by (simp add: e_def)
  have r: "rne (x / 2 powr of_int (e - 52)) = m" using assms(4) unfolding e3 by simp
  have m53: "(of_int m :: real) \<le> 2 ^ 53"
  proof -
    have "rne (x * 2 ^ k) \<le> 2 ^ 53"
      using assms(3) by (intro rne_le) simp
    then have "(of_int m :: real) \<le> of_int (2 ^ 53)"
      unfolding assms(4) by (simp only: of_int_le_iff)
    then show ?thesis by simp
  qed
  have m0: "(0::real) \<le> of_int m"
  proof -
    have "0 \<le> rne (x * 2 ^ k)" using pos by (intro rne_ge) simp
    then show ?thesis unfolding assms(4) by simp
  qed
  have "(1::real) \<le> 2 ^ k" by (rule one_le_power) simp
  then have "of_int m / 2 ^ k \<le> (of_int m / 1 :: real)"
    using m0 by (intro divide_left_mono) simp_all
  then have "of_int m / 2 ^ k \<le> (2 ^ 53 :: real)" using m53 by simp
  also have "\<dots> < 2 ^ 1024" by (intro power_strict_increasing) simp_all
  finally have small: "of_int m * 2 powr of_int (e - 52) < (2 ^ 1024 :: real)"
    unfolding e3 by simp
  show ?thesis
    using round64_by_grid [OF pos lo hi range r small] unfolding e3 by simp
qed

lemma sqrt_rounds:
  assumes "0 \<le> a" and "(2 * of_int m - 1)\<^sup>2 < a * 4 ^ Suc k" and "a * 4 ^ Suc k < (2 * of_int m + 1)\<^sup>2"
    and "0 < m"
  shows "rne (sqrt a * 2 ^ k) = m"
proof -
  have "(4::real) ^ k = (2\<^sup>2) ^ k" by simp
  also have "\<dots> = (2 ^ k)\<^sup>2" by (simp only: power_mult [symmetric] mult.commute)
  finally have pk: "(4::real) ^ k = (2 ^ k)\<^sup>2" .
  have mpos: "(0::real) \<le> 2 * of_int m - 1" using assms(4) by simp
  have "((2 * of_int m - 1) / (2 * 2 ^ k))\<^sup>2 < a"
    using assms(2) by (simp add: power_divide power_mult_distrib pk [symmetric] field_simps)
  then have "(2 * of_int m - 1) / (2 * 2 ^ k) < sqrt a" by (rule real_less_rsqrt)
  then have lo: "of_int m - 1 / 2 < sqrt a * 2 ^ k" by (simp add: field_simps)
  have "a < ((2 * of_int m + 1) / (2 * 2 ^ k))\<^sup>2"
    using assms(3) by (simp add: power_divide power_mult_distrib pk [symmetric] field_simps)
  moreover have "(0::real) \<le> (2 * of_int m + 1) / (2 * 2 ^ k)" using assms(4) by simp
  ultimately have "sqrt a < (2 * of_int m + 1) / (2 * 2 ^ k)" by (intro real_less_lsqrt)
  then have hi: "sqrt a * 2 ^ k < of_int m + 1 / 2" by (simp add: field_simps)
  from lo hi show ?thesis by (rule rne_near)
qed

lemma sqrt_grid_down:
  assumes "0 \<le> a" and "0 < m" and "k \<le> 1074"
    and "(2 * of_int m - 1)\<^sup>2 < a * 4 ^ Suc k" and "a * 4 ^ Suc k < (2 * of_int m + 1)\<^sup>2"
    and "(2 ^ 52)\<^sup>2 \<le> a * 4 ^ k" and "a * 4 ^ k < (2 ^ 53)\<^sup>2"
  shows "round64 (sqrt a) = Fin (of_int m / 2 ^ k)"
proof -
  have r: "rne (sqrt a * 2 ^ k) = m"
    using assms(1,4,5,2) by (rule sqrt_rounds)
  have "(4::real) ^ k = (2\<^sup>2) ^ k" by simp
  also have "\<dots> = (2 ^ k)\<^sup>2" by (simp only: power_mult [symmetric] mult.commute)
  finally have pk: "(4::real) ^ k = (2 ^ k)\<^sup>2" .
  have "(2 ^ 52 / 2 ^ k)\<^sup>2 \<le> a"
    using assms(6) unfolding pk by (simp add: power_divide field_simps)
  then have "2 ^ 52 / 2 ^ k \<le> sqrt a" by (rule real_le_rsqrt)
  then have lo: "2 ^ 52 \<le> sqrt a * 2 ^ k" by (simp add: field_simps)
  have "a < (2 ^ 53 / 2 ^ k)\<^sup>2"
    using assms(7) unfolding pk by (simp add: power_divide field_simps)
  then have "sqrt a < 2 ^ 53 / 2 ^ k" by (intro real_less_lsqrt) simp_all
  then have hi: "sqrt a * 2 ^ k < 2 ^ 53" by (simp add: field_simps)
  from assms(3) lo hi r show ?thesis by (rule round64_grid_down)
qed

section \<open>Properties of the float64 operations\<close>

lemma f_square_nonneg: "nonneg_or_nan (f_square x)"
  by (cases x) (simp_all add: nonneg_or_nan_def round64_nonneg)

lemma f_square_nonneg64: "x \<noteq> NaN \<Longrightarrow> nonneg64 (f_square x)"
  by (cases x) (simp_all add: round64_nonneg)

lemma f_add_nonneg64: "nonneg64 x \<Longrightarrow> nonneg64 y \<Longrightarrow> nonneg64 (f_add x y)"
  by (cases x; cases y) (simp_all add: round64_nonneg)

lemma f_add_nonneg: "nonneg_or_nan x \<Longrightarrow> nonneg_or_nan y \<Longrightarrow> nonneg_or_nan (f_add x y)"
  by (cases x; cases y) (simp_all add: nonneg_or_nan_def round64_nonneg)


lemma f_div_nonneg64: "0 < d \<Longrightarrow> nonneg64 a \<Longrightarrow> nonneg64 (f_div a (Fin d))"
  by (cases a) (simp_all add: round64_nonneg)


lemma f_sub_same: "finite64 x \<Longrightarrow> f_sub x x = Fin 0"
  by (cases x) (simp_all add: f_sub_def)

lemma fle_PInf: "nonneg64 x \<Longrightarrow> fle x PInf"
  by (cases x) simp_all

lemma fle_nonneg: "nonneg64 x \<Longrightarrow> fle x y \<Longrightarrow> nonneg64 y"
  by (cases x; cases y) simp_all

lemma f_add_mono:
  assumes "nonneg64 a" and "nonneg64 b" and "fle a a'" and "fle b b'"
  shows "fle (f_add a b) (f_add a' b')"
proof -
  have nn: "nonneg64 a'" "nonneg64 b'"
    using assms by (auto intro: fle_nonneg)
  have left: "nonneg64 (f_add a b)" using assms(1,2) by (rule f_add_nonneg64)
  show ?thesis
  proof (cases "finite64 a' \<and> finite64 b'")
    case True
    then obtain x' y' where a': "a' = Fin x'" and b': "b' = Fin y'"
      by (cases a'; cases b') auto
    with assms obtain x y where a: "a = Fin x" and b: "b = Fin y"
      by (cases a; cases b) auto
    have "0 \<le> x + y" and "x + y \<le> x' + y'"
      using assms by (simp_all add: a b a' b')
    then show ?thesis by (simp add: a b a' b' round64_mono)
  next
    case False
    then have "f_add a' b' = PInf"
      using nn by (cases a'; cases b') auto
    then show ?thesis using left by (simp add: fle_PInf)
  qed
qed

lemma f_div_mono:
  assumes "0 < d" and "nonneg64 a" and "fle a b"
  shows "fle (f_div a (Fin d)) (f_div b (Fin d))"
proof (cases b)
  case (Fin y)
  with assms obtain x where a: "a = Fin x" by (cases a) auto
  have "0 \<le> x / d" and "x / d \<le> y / d"
    using assms by (simp_all add: a Fin divide_right_mono)
  then show ?thesis using assms(1) by (simp add: a Fin round64_mono)
next
  case PInf
  have "nonneg64 (f_div a (Fin d))"
    using assms(1,2) by (cases a) (simp_all add: round64_nonneg)
  then show ?thesis using assms(1) by (simp add: PInf fle_PInf)
next
  case NInf
  with assms show ?thesis by (cases a) simp_all
next
  case NaN
  with assms show ?thesis by (cases a) simp_all
qed

lemma f_sqrt_mono:
  assumes "nonneg64 a" and "fle a b"
  shows "fle (f_sqrt a) (f_sqrt b)"
proof (cases b)
  case (Fin y)
  with assms obtain x where a: "a = Fin x" by (cases a) auto
  have "0 \<le> sqrt x" and "sqrt x \<le> sqrt y" and "0 \<le> x" and "0 \<le> y"
    using assms by (simp_all add: a Fin)
  then show ?thesis by (simp add: a Fin round64_mono)
next
  case PInf
  have "nonneg64 (f_sqrt a)" using assms(1) by (cases a) (simp_all add: round64_nonneg)
  then show ?thesis by (simp add: PInf fle_PInf)
next
  case NInf
  with assms show ?thesis by (cases a) simp_all
next
  case NaN
  with assms show ?thesis by (cases a) simp_all
qed

text \<open>
  Sums in any order: of zeros, of non-negative numbers, and of two arrays one of which is below
  the other entry by entry.
\<close>

lemma sum_by_nonneg:
  "list_all nonneg_or_nan xs \<Longrightarrow> nonneg_or_nan (sum_by t xs)"
proof (induction t)
  case (Leaf i)
  then show ?case by (simp add: list_all_length nonneg_or_nan_def)
next
  case (Node l r)
  then show ?case by (simp add: f_add_nonneg)
qed

lemma sum_by_nonneg64:
  "list_all nonneg64 xs \<Longrightarrow> nonneg64 (sum_by t xs)"
proof (induction t)
  case (Leaf i)
  then show ?case by (simp add: list_all_length)
next
  case (Node l r)
  then show ?case by (simp add: f_add_nonneg64)
qed

lemma sum_by_zero:
  "list_all (\<lambda>x. x = Fin 0) xs \<Longrightarrow> sum_by t xs = Fin 0"
  by (induction t) (simp_all add: list_all_length)

lemma sum_by_mono:
  assumes "list_all2 fle xs ys" and "list_all nonneg64 xs"
  shows "fle (sum_by t xs) (sum_by t ys)"
proof (induction t)
  case (Leaf i)
  have "length xs = length ys" using assms(1) by (rule list_all2_lengthD)
  then show ?case using assms(1) by (simp add: list_all2_nthD)
next
  case (Node l r)
  then show ?case using assms(2) by (simp add: f_add_mono sum_by_nonneg64)
qed

lemma np_sum64_nonneg: "list_all nonneg_or_nan xs \<Longrightarrow> nonneg_or_nan (np_sum64 order xs)"
  by (simp add: np_sum64_def sum_by_nonneg) (simp add: nonneg_or_nan_def)

lemma np_sum64_nonneg64: "list_all nonneg64 xs \<Longrightarrow> nonneg64 (np_sum64 order xs)"
  by (simp add: np_sum64_def sum_by_nonneg64)

lemma np_sum64_zero: "list_all (\<lambda>x. x = Fin 0) xs \<Longrightarrow> np_sum64 order xs = Fin 0"
  by (simp add: np_sum64_def sum_by_zero)

lemma np_sum64_mono:
  assumes "list_all2 fle xs ys" and "list_all nonneg64 xs"
  shows "fle (np_sum64 order xs) (np_sum64 order ys)"
proof -
  have len: "length xs = length ys" using assms(1) by (rule list_all2_lengthD)
  show ?thesis
  proof (cases "xs = []")
    case True
    with len show ?thesis by (simp add: np_sum64_def)
  next
    case False
    with len have "ys \<noteq> []" by auto
    with False show ?thesis
      using sum_by_mono [OF assms] len by (simp add: np_sum64_def)
  qed
qed

section \<open>What the code computes in float64\<close>


text \<open>
  The condensed vector lists the distances of the pairs \<open>i < j\<close> in the order of \<open>pairs\<close>.
\<close>

lemma set_pairs: "set (pairs n) = {(i, j). i < j \<and> j < n}"
  by (fastforce simp: pairs_def)

lemma all_pairs_iff:
  "(\<forall>i j. i < j \<and> j < n \<longrightarrow> P i j) \<longleftrightarrow> list_all (\<lambda>(i, j). P i j) (pairs n)"
  by (auto simp: list_all_iff set_pairs)

lemma pairs_Suc:
  "pairs (Suc n) = map (Pair 0) (map Suc [0..<n]) @ map (\<lambda>(i, j). (Suc i, Suc j)) (pairs n)"
proof -
  have "[0..<Suc n] = 0 # map Suc [0..<n]"
    by (simp add: upt_conv_Cons map_Suc_upt del: upt_Suc)
  then have "pairs (Suc n) =
      map (Pair 0) [Suc 0..<Suc n] @
      concat (map (\<lambda>i. map (Pair (Suc i)) [Suc (Suc i)..<Suc n]) [0..<n])"
    by (simp add: pairs_def comp_def del: upt_Suc)
  also have "concat (map (\<lambda>i. map (Pair (Suc i)) [Suc (Suc i)..<Suc n]) [0..<n]) =
      map (\<lambda>(i, j). (Suc i, Suc j)) (pairs n)"
    by (simp add: pairs_def map_concat comp_def map_Suc_upt [symmetric] del: upt_Suc)
  finally show ?thesis by (simp add: map_Suc_upt del: upt_Suc)
qed

lemma map_over_pairs_Cons:
  "map (\<lambda>(i, j). f ((x # xs) ! i) ((x # xs) ! j)) (pairs (Suc (length xs))) =
   map (f x) xs @ map (\<lambda>(i, j). f (xs ! i) (xs ! j)) (pairs (length xs))"
proof -
  have "map (\<lambda>j. f x (xs ! j)) [0..<length xs] = map (f x) (map ((!) xs) [0..<length xs])"
    by (simp add: comp_def)
  then have "map (\<lambda>j. f x (xs ! j)) [0..<length xs] = map (f x) xs"
    by (simp only: map_nth)
  then show ?thesis
    by (simp add: pairs_Suc comp_def case_prod_unfold)
qed

lemma condensed64_pairs:
  "condensed64 X = map (\<lambda>(i, j). d64 X i j) (pairs (length X))"
proof (induction X)
  case Nil
  show ?case by (simp add: pairs_def)
next
  case (Cons p ps)
  show ?case
    using map_over_pairs_Cons [of euclidean64 p ps] Cons.IH
    by (simp add: d64_def)
qed

lemma pairs_3: "pairs 3 = [(0, 1), (0, 2), (1, 2)]"
  by (simp add: pairs_def upt_rec)

lemma pairs_Suc3: "pairs (Suc (Suc (Suc 0))) = [(0, 1), (0, 2), (1, 2)]"
  using pairs_3 by (simp add: numeral_3_eq_3)

lemma stress64_equal_counts:
  assumes "is_2d X_reduced" and "is_2d X" and "length X_reduced = length X"
  shows "stress64 order X_reduced X = Inr (spec_stress64 order X X_reduced)"
proof -
  let ?ps = "pairs (length X)"
  have red: "condensed64 X_reduced = map (\<lambda>(i, j). d64 X_reduced i j) ?ps"
    using condensed64_pairs [of X_reduced] assms(3) by simp
  have tot: "condensed64 X = map (\<lambda>(i, j). d64 X i j) ?ps"
    by (rule condensed64_pairs)
  have sub: "np_subtract64 (condensed64 X) (condensed64 X_reduced) =
      Inr (map (\<lambda>(i, j). f_sub (d64 X i j) (d64 X_reduced i j)) ?ps)"
    by (simp add: np_subtract64_def red tot zip_map_map zip_same_conv_map
        case_prod_unfold comp_def)
  show ?thesis
    using assms(1,2)
    by (simp add: stress64_def pdist64_def sub)
       (simp add: tot np_square64_def spec_stress64_def sq_errors64_def sq_dists64_def
          sq_error64_def comp_def case_prod_unfold)
qed

lemma stress64_same_distances:
  assumes "is_2d X_reduced" and "is_2d X" and "length X_reduced = length X"
    and same: "\<forall>i j. i < j \<and> j < length X \<longrightarrow> d64 X_reduced i j = d64 X i j"
    and fin: "\<forall>i j. i < j \<and> j < length X \<longrightarrow> finite64 (d64 X i j)"
    and den: "np_sum64 order (sq_dists64 X) \<noteq> Fin 0"
  shows "stress64 order X_reduced X = Inr (Fin 0)"
proof -
  have "list_all (\<lambda>x. x = Fin 0) (sq_errors64 X X_reduced)"
    using same fin
    by (auto simp: sq_errors64_def sq_error64_def list_all_iff set_pairs f_sub_same)
  then have num: "np_sum64 order (sq_errors64 X X_reduced) = Fin 0"
    by (rule np_sum64_zero)
  have "nonneg64 (f_square (d64 X i j))" if "i < j" "j < length X" for i j
  proof -
    have "finite64 (d64 X i j)" using fin that by simp
    then have "d64 X i j \<noteq> NaN" by (cases "d64 X i j") simp_all
    then show ?thesis by (rule f_square_nonneg64)
  qed
  then have "list_all nonneg64 (sq_dists64 X)"
    by (auto simp: sq_dists64_def list_all_iff set_pairs)
  then have "nonneg64 (np_sum64 order (sq_dists64 X))"
    by (rule np_sum64_nonneg64)
  with den have "f_div (Fin 0) (np_sum64 order (sq_dists64 X)) = Fin 0"
    by (cases "np_sum64 order (sq_dists64 X)") simp_all
  then show ?thesis
    using stress64_equal_counts [OF assms(1-3)] num by (simp add: spec_stress64_def)
qed

lemma stress64_monotone_aux:
  assumes "is_2d X" and "is_2d A" and "is_2d B"
    and "length A = length X" and "length B = length X"
    and den: "finite_nonzero64 (np_sum64 order (sq_dists64 X))"
    and closer: "\<forall>i j. i < j \<and> j < length X \<longrightarrow> fle (sq_error64 X A i j) (sq_error64 X B i j)"
  shows "fle (spec_stress64 order X A) (spec_stress64 order X B)"
proof -
  have nn: "list_all nonneg64 (sq_errors64 X A)"
  proof -
    have "nonneg64 (sq_error64 X A i j)" if "i < j" "j < length X" for i j
    proof -
      have "fle (sq_error64 X A i j) (sq_error64 X B i j)" using closer that by simp
      then have "sq_error64 X A i j \<noteq> NaN" by (cases "sq_error64 X A i j") auto
      moreover have "nonneg_or_nan (sq_error64 X A i j)"
        by (simp add: sq_error64_def f_square_nonneg)
      ultimately show ?thesis by (simp add: nonneg_or_nan_def)
    qed
    then show ?thesis by (auto simp: sq_errors64_def list_all_iff set_pairs)
  qed
  have "list_all2 fle (sq_errors64 X A) (sq_errors64 X B)"
    using closer
    by (auto simp: sq_errors64_def list_all2_map1 list_all2_map2 set_pairs intro!: list_all2_same [THEN iffD2])
  then have num: "fle (np_sum64 order (sq_errors64 X A)) (np_sum64 order (sq_errors64 X B))"
    using nn by (rule np_sum64_mono)
  have numnn: "nonneg64 (np_sum64 order (sq_errors64 X A))"
    using nn by (rule np_sum64_nonneg64)
  obtain d where d: "np_sum64 order (sq_dists64 X) = Fin d" and "d \<noteq> 0"
    using den by (cases "np_sum64 order (sq_dists64 X)") auto
  have "nonneg_or_nan (np_sum64 order (sq_dists64 X))"
    by (intro np_sum64_nonneg) (simp add: sq_dists64_def list_all_iff case_prod_unfold f_square_nonneg)
  with d \<open>d \<noteq> 0\<close> have dpos: "0 < d" by (simp add: nonneg_or_nan_def)
  have "fle (f_div (np_sum64 order (sq_errors64 X A)) (Fin d))
            (f_div (np_sum64 order (sq_errors64 X B)) (Fin d))"
    using dpos numnn num by (rule f_div_mono)
  moreover have "nonneg64 (f_div (np_sum64 order (sq_errors64 X A)) (Fin d))"
    using dpos numnn by (rule f_div_nonneg64)
  ultimately show ?thesis
    by (simp add: spec_stress64_def d f_sqrt_mono)
qed

section \<open>Concrete runs\<close>

text \<open>
  Overflow and underflow of a square.
\<close>

lemma huge_pos: "0 < huge"
  by (simp add: huge_def)

lemma round64_huge: "round64 huge = Fin huge" "round64 (- huge) = Fin (- huge)"
  unfolding huge_def by (rule round64_pow2, simp)+

lemma round64_huge_sq: "round64 (huge * huge) = PInf"
proof -
  have "huge * huge = 2 ^ 1200" by (simp add: huge_def power_add [symmetric])
  moreover have "(2::real) ^ 1024 \<le> 2 ^ 1200" by (intro power_increasing) simp_all
  ultimately show ?thesis by (simp only: round64_overflow)
qed

lemma tiny_pos: "0 < tiny"
  by (simp add: tiny_def)

lemma round64_tiny: "round64 tiny = Fin tiny" "round64 (- tiny) = Fin (- tiny)"
proof -
  have e: "of_int 1 * 2 powr of_int (- int 600) = tiny"
    using powr_int_neg_nat [of 600] by (simp add: tiny_def)
  have lt: "of_int 1 * 2 powr of_int (- int 600) < (2 ^ 1024 :: real)"
    unfolding e tiny_def by (rule less_trans [of _ 1]) simp_all
  have a: "(0::int) < 1" and b: "(1::int) < 2 ^ 53" and c: "- 1074 \<le> - int 600" by simp_all
  from round64_exact [OF a b c lt] show "round64 tiny = Fin tiny"
    and "round64 (- tiny) = Fin (- tiny)" by (simp_all only: e)
qed

lemma round64_tiny_sq: "round64 (tiny * tiny) = Fin 0"
proof -
  have "tiny * tiny = 1 / 2 ^ 1200" by (simp add: tiny_def power_add [symmetric])
  moreover have "(1::real) / 2 ^ 1200 < 1 / 2 ^ 1075"
  proof -
    have "(2::real) ^ 1075 < 2 ^ 1200" by (intro power_strict_increasing) simp_all
    then show ?thesis by (intro divide_strict_left_mono) simp_all
  qed
  ultimately show ?thesis using round64_underflow [of "tiny * tiny"] tiny_pos by simp
qed

text \<open>
  The distance of the origin from \<open>(1, 3, 94906267)\<close>, and from the same point with its
  coordinates permuted. The square of \<open>94906267\<close> lies above \<open>2\<^bsup>53\<^esup>\<close>, where only even
  integers are float64 numbers, so the sum of the three squares depends on the order in which
  they are added, and the two distances differ in the last place.
\<close>

lemma step_bb: "round64 9007199515875289 = Fin 9007199515875288"
  using round64_grid_up [of 1 9007199515875289 4503599757937644]
  by (simp add: rne_tie_even)


lemma step_297: "round64 9007199515875297 = Fin 9007199515875296"
  using round64_grid_up [of 1 9007199515875297 4503599757937648]
  by (simp add: rne_tie_even)

lemma step_298: "round64 9007199515875298 = Fin 9007199515875298"
  using round64_grid_up [of 1 9007199515875298 4503599757937649]
  by simp

lemma step_dA: "round64 (sqrt 9007199515875296) = Fin (6369051764850690 / 2 ^ 26)"
  using sqrt_grid_down [of 9007199515875296 6369051764850690 26] by simp

lemma step_dO: "round64 (sqrt 9007199515875298) = Fin (6369051764850691 / 2 ^ 26)"
  using sqrt_grid_down [of 9007199515875298 6369051764850691 26] by simp

lemma step_diff: "round64 (1 / 2 ^ 26) = Fin (1 / 2 ^ 26)"
  using round64_grid_down [of 78 "1 / 2 ^ 26" "2 ^ 52"] by simp

lemma step_sq: "round64 (1 / 2 ^ 52) = Fin (1 / 2 ^ 52)"
  using round64_grid_down [of 104 "1 / 2 ^ 52" "2 ^ 52"] by simp

lemma step_den:
  "round64 (6369051764850691 / 2 ^ 26 * (6369051764850691 / 2 ^ 26)) = Fin 9007199515875298"
proof -
  let ?x = "6369051764850691 / 2 ^ 26 * (6369051764850691 / 2 ^ 26) :: real"
  have "rne (?x / 2 ^ 1) = 4503599757937649"
    by (rule rne_near) simp_all
  then show ?thesis
    using round64_grid_up [of 1 ?x 4503599757937649] by simp
qed

lemma step_q:
  "round64 (1 / 2 ^ 52 / 9007199515875298) = Fin (9007198993606694 / 2 ^ 158)"
proof -
  let ?x = "1 / 2 ^ 52 / 9007199515875298 :: real"
  have "rne (?x * 2 ^ 158) = 9007198993606694"
    by (rule rne_near) simp_all
  then show ?thesis
    using round64_grid_down [of 158 ?x 9007198993606694] by simp
qed

lemma step_r:
  "round64 (sqrt (9007198993606694 / 2 ^ 158)) = Fin (6369051580200855 / 2 ^ 105)"
  using sqrt_grid_down [of "9007198993606694 / 2 ^ 158" 6369051580200855 105] by simp

lemmas steps = step_bb step_297 step_298 step_dA [simplified] step_dO [simplified]
  step_diff [simplified] step_sq [simplified] step_den [simplified] step_q [simplified]
  step_r [simplified]

lemma dO: "euclidean64 [0, 0, 0] [1, 3, 94906267] = Fin (6369051764850691 / 2 ^ 26)"
  by (simp add: euclidean64_def f_sub_def steps)

lemma dA: "euclidean64 [0, 0, 0] [3, 94906267, 1] = Fin (6369051764850690 / 2 ^ 26)"
  by (simp add: euclidean64_def f_sub_def steps)


lemma sqrt_small: "sqrt 4 = 2" "sqrt 9 = 3" "sqrt 16 = 4" "sqrt 25 = 5"
  by (simp_all add: real_sqrt_unique)

lemmas eval64 = stress64_def pdist64_def euclidean64_def f_sub_def np_subtract64_def
  np_square64_def np_sum64_def left_to_right_def round64_huge round64_huge_sq

lemmas run64 = stress64_def pdist64_def np_subtract64_def np_square64_def np_sum64_def
  left_to_right_def f_sub_def

lemma tri_d64:
  "d64 [[0, 0], [0, 3], [4, 0]] 0 (Suc 0) = Fin 3"
  "d64 [[0, 0], [0, 3], [4, 0]] 0 2 = Fin 4"
  "d64 [[0, 0], [0, 3], [4, 0]] (Suc 0) 2 = Fin 5"
  by (simp_all add: d64_def euclidean64_def f_sub_def sqrt_small)

lemma tri_den: "np_sum64 left_to_right (sq_dists64 [[0, 0], [0, 3], [4, 0]]) = Fin 50"
  by (simp add: sq_dists64_def pairs_Suc3 tri_d64 np_sum64_def left_to_right_def)

lemma line_d64:
  "d64 [[0], [1], [3]] 0 (Suc 0) = Fin 1" "d64 [[0], [1], [3]] 0 2 = Fin 3"
  "d64 [[0], [1], [3]] (Suc 0) 2 = Fin 2"
  "d64 [[0], [1], [2]] 0 (Suc 0) = Fin 1" "d64 [[0], [1], [2]] 0 2 = Fin 2"
  "d64 [[0], [1], [2]] (Suc 0) 2 = Fin 1"
  "d64 [[0], [0], [0]] 0 (Suc 0) = Fin 0" "d64 [[0], [0], [0]] 0 2 = Fin 0"
  "d64 [[0], [0], [0]] (Suc 0) 2 = Fin 0"
  by (simp_all add: d64_def euclidean64_def f_sub_def sqrt_small)




section \<open>The claims\<close>




text \<open>
  C2, as stated, fails: when all original points coincide the code raises nothing. The
  division by zero yields \<open>inf\<close> or \<open>nan\<close>.
\<close>

theorem stress_degenerate_counterexample:
  "stress [[0], [3]] [[1, 1], [1, 1]] = Inr PInf \<and>
   stress [[1, 1], [1, 1]] [[1, 1], [1, 1]] = Inr NaN"
  by (simp add: stress_def pdist_def euclidean_def np_subtract_def np_square_def np_sum_def
      np_divide_def)

text \<open>
  C2, amended. For datasets with the same point count \<open>N \<ge> 2\<close> in which all points of the
  original coincide, the code raises no error: it returns \<open>nan\<close> or \<open>+inf\<close>.
\<close>

theorem stress_degenerate:
  assumes "is_2d reduced" and "length reduced = length original" and "2 \<le> length original"
    and same: "\<forall>q\<in>set original. q = p"
  shows "stress reduced original = Inr NaN \<or> stress reduced original = Inr PInf"
proof -
  have "list_all (\<lambda>r. length r = length p) original"
    using same by (simp add: list_all_iff)
  then have two_d: "is_2d original" by (rule is_2d_same_dim)
  have zero: "d_ij original i j = 0" if "i < length original" "j < length original" for i j
  proof -
    from that same have "original ! i = p" and "original ! j = p" by auto
    then show ?thesis by (simp add: d_ij_def euclidean_same)
  qed
  have den: "sq_dist_sum original = 0"
    unfolding sq_dist_sum_def by (intro sum.neutral ballI) (simp add: zero)
  have "sq_error_sum original reduced \<noteq> 0 \<Longrightarrow> 0 < sq_error_sum original reduced"
    using sq_error_sum_nonneg [of original reduced] by simp
  then show ?thesis
    using stress_equal_counts [OF assms(1) two_d assms(2)] den
    by (auto simp: np_divide_def)
qed

text \<open>
  C2 amended, at three coinciding original points and a spread reduced dataset.
\<close>

theorem stress_degenerate_witness:
  "is_2d [[0], [3], [3]] \<and> length [[0], [3], [3::real]] = length [[1, 1], [1, 1], [1, 1::real]] \<and>
   2 \<le> length [[1, 1], [1, 1], [1, 1::real]] \<and>
   list_all (\<lambda>q. q = [1, 1]) [[1, 1], [1, 1], [1, 1::real]] \<and>
   (stress [[0], [3], [3]] [[1, 1], [1, 1], [1, 1]] = Inr NaN \<or>
    stress [[0], [3], [3]] [[1, 1], [1, 1], [1, 1]] = Inr PInf)"
  using stress_degenerate [of "[[0], [3], [3]]" "[[1, 1], [1, 1], [1, 1]]" "[1, 1]"]
  by simp

text \<open>
  C3, as stated, fails in both directions: with one point on each side (\<open>N < 2\<close>) nothing is
  raised, and with three points against two the single distance is broadcast and a number is
  returned.
\<close>

theorem stress_invalid_counterexample:
  "stress [[7]] [[7]] = Inr NaN \<and>
   stress [[0], [3], [5]] [[0], [1]] = Inr (Fin (sqrt 21))"
  by (simp add: stress_def pdist_def euclidean_def np_subtract_def np_square_def np_sum_def
      np_divide_def)

text \<open>
  C3, amended. For two-dimensional arrays the code fails exactly when the point counts
  differ, neither count is \<open>2\<close>, and at least one count is \<open>2\<close> or more; the failure is
  numpy's broadcasting \<open>ValueError\<close>, the only error the call can raise on such input. In
  particular 10 points against 8 fail.
\<close>

theorem stress_raises_exactly:
  assumes "is_2d X_reduced" and "is_2d X"
  shows "(isl (stress X_reduced X) \<longleftrightarrow>
            length X_reduced \<noteq> length X \<and> length X_reduced \<noteq> 2 \<and> length X \<noteq> 2 \<and>
            (2 \<le> length X_reduced \<or> 2 \<le> length X)) \<and>
         (isl (stress X_reduced X) \<longleftrightarrow> stress X_reduced X = Inl ValueError_broadcast)"
proof -
  have "isl (stress X_reduced X) \<longleftrightarrow> stress X_reduced X = Inl ValueError_broadcast"
    using assms by (simp add: stress_def pdist_def np_subtract_def Let_def)
  then show ?thesis
    using stress_raises_iff [OF assms] by simp
qed

text \<open>
  C3 amended, at 10 points against 8 (both ways round), and at 3 points against 2, where
  nothing is raised.
\<close>

theorem stress_raises_exactly_witness:
  "is_2d [[0], [1], [2], [3], [4], [5], [6], [7], [8], [9]] \<and>
   is_2d [[0], [1], [2], [3], [4], [5], [6], [7]] \<and>
   stress [[0], [1], [2], [3], [4], [5], [6], [7], [8], [9]]
          [[0], [1], [2], [3], [4], [5], [6], [7]] = Inl ValueError_broadcast \<and>
   stress [[0], [1], [2], [3], [4], [5], [6], [7]]
          [[0], [1], [2], [3], [4], [5], [6], [7], [8], [9]] = Inl ValueError_broadcast \<and>
   \<not> isl (stress [[0], [1], [2]] [[5], [6]])"
  using stress_raises_exactly [of "[[0], [1], [2], [3], [4], [5], [6], [7], [8], [9]]"
      "[[0], [1], [2], [3], [4], [5], [6], [7]]"]
    stress_raises_exactly [of "[[0], [1], [2], [3], [4], [5], [6], [7]]"
      "[[0], [1], [2], [3], [4], [5], [6], [7], [8], [9]]"]
    stress_raises_exactly [of "[[0], [1], [2]]" "[[5], [6]]"]
  by auto

text \<open>
  C4, as stated, fails in float64. The dataset of the two points \<open>(0, 0)\<close> and
  \<open>(0, 2\<^bsup>600\<^esup>)\<close> has two points and a nonzero sum of squared distances, but compared with
  itself it gives \<open>nan\<close>: the squared distance overflows, and \<open>inf - inf\<close> is \<open>nan\<close>. So does
  the dataset of the points \<open>0\<close> and \<open>2\<^bsup>-600\<^esup>\<close>: the squared distance underflows to zero,
  and the code divides zero by zero.
\<close>

theorem stress_identity_counterexample:
  "is_2d [[0, 0], [0, huge]] \<and> 2 \<le> length [[0, 0], [0, huge]] \<and>
   sq_dist_sum [[0, 0], [0, huge]] \<noteq> 0 \<and>
   stress64 left_to_right [[0, 0], [0, huge]] [[0, 0], [0, huge]] = Inr NaN \<and>
   is_2d [[0], [tiny]] \<and> 2 \<le> length [[0], [tiny]] \<and> sq_dist_sum [[0], [tiny]] \<noteq> 0 \<and>
   stress64 left_to_right [[0], [tiny]] [[0], [tiny]] = Inr NaN"
proof -
  have "stress64 left_to_right [[0, 0], [0, huge]] [[0, 0], [0, huge]] = Inr NaN"
    by (simp add: eval64)
  moreover have "sq_dist_sum [[0, 0], [0, huge]] \<noteq> 0"
    using huge_pos by (simp add: eval_sums)
  moreover have "stress64 left_to_right [[0], [tiny]] [[0], [tiny]] = Inr NaN"
    by (simp add: eval64 round64_tiny round64_tiny_sq)
  moreover have "sq_dist_sum [[0], [tiny]] \<noteq> 0"
    using tiny_pos by (simp add: eval_sums)
  ultimately show ?thesis by simp
qed

text \<open>
  C4, amended. For a dataset \<open>X\<close> with \<open>N \<ge> 2\<close> points whose float64 pairwise distances are
  all finite and whose float64 sum of squared distances is not zero, \<open>stress(X, X)\<close> is
  exactly \<open>0\<close>.
\<close>

theorem stress_identity_float64:
  assumes "is_2d X" and "2 \<le> length X"
    and "\<forall>i j. i < j \<and> j < length X \<longrightarrow> finite64 (d64 X i j)"
    and "np_sum64 order (sq_dists64 X) \<noteq> Fin 0"
  shows "stress64 order X X = Inr (Fin 0)"
  using assms(1) assms(1) refl _ assms(3,4) by (rule stress64_same_distances) simp

text \<open>
  C4 amended, at the 3-4-5 triangle.
\<close>

theorem stress_identity_float64_witness:
  "is_2d [[0, 0], [0, 3], [4, 0]] \<and> 2 \<le> length [[0, 0], [0, 3], [4, 0::real]] \<and>
   list_all (\<lambda>(i, j). finite64 (d64 [[0, 0], [0, 3], [4, 0]] i j)) [(0, 1), (0, 2), (1, 2)] \<and>
   np_sum64 left_to_right (sq_dists64 [[0, 0], [0, 3], [4, 0]]) = Fin 50 \<and>
   stress64 left_to_right [[0, 0], [0, 3], [4, 0]] [[0, 0], [0, 3], [4, 0]] = Inr (Fin 0)"
proof -
  have fin: "\<forall>i j. i < j \<and> j < length [[0, 0], [0, 3], [4, 0::real]] \<longrightarrow>
      finite64 (d64 [[0, 0], [0, 3], [4, 0]] i j)"
    by (simp add: all_pairs_iff pairs_Suc3 tri_d64)
  show ?thesis
    using fin stress_identity_float64 [of "[[0, 0], [0, 3], [4, 0]]" left_to_right]
    by (simp add: tri_den tri_d64)
qed




text \<open>
  C6. For \<open>original = [[0,0],[0,3],[4,0]]\<close>: the same dataset as reduced gives \<open>0\<close>; the
  collapsed dataset \<open>[[0,0],[0,0],[0,0]]\<close> gives \<open>1\<close>. The original distances are \<open>3, 4, 5\<close>,
  the numerator and the denominator are both \<open>50\<close>.
\<close>

theorem stress_concrete_scenario:
  "stress [[0, 0], [0, 3], [4, 0]] [[0, 0], [0, 3], [4, 0]] = Inr (Fin 0) \<and>
   stress [[0, 0], [0, 0], [0, 0]] [[0, 0], [0, 3], [4, 0]] = Inr (Fin 1) \<and>
   condensed [[0, 0], [0, 3], [4, 0]] = [3, 4, 5] \<and>
   condensed [[0, 0], [0, 0], [0, 0]] = [0, 0, 0] \<and>
   np_subtract [3, 4, 5] [0, 0, 0] = Inr [3, 4, 5] \<and>
   np_sum (np_square [3, 4, 5]) = 50"
  by (simp add: stress_def pdist_def euclidean_def np_subtract_def np_square_def np_sum_def
      np_divide_def real_sqrt_unique)

text \<open>
  C7, as stated, fails in float64. Take as original the origin and \<open>(1, 3, 94906267)\<close>, as
  \<open>A\<close> the same points with permuted coordinates and as \<open>B\<close> the original itself. The exact
  squared distance error is \<open>0\<close> for both, so that of \<open>A\<close> is at most that of \<open>B\<close>; but the
  code returns about \<open>1.57e-16\<close> for \<open>A\<close> and \<open>0\<close> for \<open>B\<close>.
\<close>

theorem stress_monotone_counterexample:
  "sq_dist_sum [[0, 0, 0], [1, 3, 94906267]] \<noteq> 0 \<and>
   (d_ij [[0, 0, 0], [1, 3, 94906267]] 0 1 - d_ij [[0, 0, 0], [3, 94906267, 1]] 0 1)\<^sup>2 \<le>
   (d_ij [[0, 0, 0], [1, 3, 94906267]] 0 1 - d_ij [[0, 0, 0], [1, 3, 94906267]] 0 1)\<^sup>2 \<and>
   stress64 left_to_right [[0, 0, 0], [3, 94906267, 1]] [[0, 0, 0], [1, 3, 94906267]] =
     Inr (Fin (6369051580200855 / 2 ^ 105)) \<and>
   stress64 left_to_right [[0, 0, 0], [1, 3, 94906267]] [[0, 0, 0], [1, 3, 94906267]] =
     Inr (Fin 0) \<and>
   \<not> fle (Fin (6369051580200855 / 2 ^ 105)) (Fin 0)"
proof -
  have "stress64 left_to_right [[0, 0, 0], [3, 94906267, 1]] [[0, 0, 0], [1, 3, 94906267]] =
     Inr (Fin (6369051580200855 / 2 ^ 105))"
    by (simp add: run64 dO [simplified] dA [simplified] steps)
  moreover have
    "stress64 left_to_right [[0, 0, 0], [1, 3, 94906267]] [[0, 0, 0], [1, 3, 94906267]] =
     Inr (Fin 0)"
    by (simp add: run64 dO [simplified] steps)
  moreover have "sq_dist_sum [[0, 0, 0], [1, 3, 94906267]] \<noteq> 0"
    by (simp add: eval_sums)
  moreover have
    "d_ij [[0, 0, 0], [3, 94906267, 1]] 0 1 = d_ij [[0, 0, 0], [1, 3, 94906267]] 0 1"
    by (simp add: d_ij_def euclidean_def)
  ultimately show ?thesis by simp
qed

text \<open>
  C7, amended. For an original dataset whose float64 sum of squared distances is finite and
  not zero, and reduced datasets \<open>A\<close> and \<open>B\<close> of its point count: when the squared distance
  error computed in float64 for \<open>A\<close> is at most that computed for \<open>B\<close> on every pair
  \<open>i < j\<close>, the stress of \<open>A\<close> is at most the stress of \<open>B\<close>.
\<close>

theorem stress_monotone_float64:
  assumes "is_2d original" and "is_2d reduced_A" and "is_2d reduced_B"
    and "length reduced_A = length original" and "length reduced_B = length original"
    and "2 \<le> length original"
    and "finite_nonzero64 (np_sum64 order (sq_dists64 original))"
    and "\<forall>i j. i < j \<and> j < length original \<longrightarrow>
           fle (sq_error64 original reduced_A i j) (sq_error64 original reduced_B i j)"
  shows "\<exists>a b. stress64 order reduced_A original = Inr a \<and>
               stress64 order reduced_B original = Inr b \<and> fle a b"
proof -
  have "fle (spec_stress64 order original reduced_A) (spec_stress64 order original reduced_B)"
    using assms(1,2,3,4,5,7,8) by (rule stress64_monotone_aux)
  then show ?thesis
    using stress64_equal_counts [OF assms(2,1,4)] stress64_equal_counts [OF assms(3,1,5)]
    by simp
qed

text \<open>
  C7 amended, at three points on a line, \<open>A\<close> a slightly compressed copy and \<open>B\<close> the
  collapse to one point.
\<close>

theorem stress_monotone_float64_witness:
  "is_2d [[0], [1], [3]] \<and> is_2d [[0], [1], [2]] \<and> is_2d [[0], [0], [0]] \<and>
   length [[0], [1], [2::real]] = length [[0], [1], [3::real]] \<and>
   length [[0], [0], [0::real]] = length [[0], [1], [3::real]] \<and>
   2 \<le> length [[0], [1], [3::real]] \<and>
   np_sum64 left_to_right (sq_dists64 [[0], [1], [3]]) = Fin 14 \<and>
   list_all (\<lambda>(i, j). fle (sq_error64 [[0], [1], [3]] [[0], [1], [2]] i j)
                         (sq_error64 [[0], [1], [3]] [[0], [0], [0]] i j))
     [(0, 1), (0, 2), (1, 2)] \<and>
   (\<exists>a b. stress64 left_to_right [[0], [1], [2]] [[0], [1], [3]] = Inr a \<and>
          stress64 left_to_right [[0], [0], [0]] [[0], [1], [3]] = Inr b \<and> fle a b)"
proof -
  have den: "np_sum64 left_to_right (sq_dists64 [[0], [1], [3]]) = Fin 14"
    by (simp add: sq_dists64_def pairs_Suc3 line_d64 np_sum64_def left_to_right_def)
  have closer: "\<forall>i j. i < j \<and> j < length [[0], [1], [3::real]] \<longrightarrow>
      fle (sq_error64 [[0], [1], [3]] [[0], [1], [2]] i j)
          (sq_error64 [[0], [1], [3]] [[0], [0], [0]] i j)"
    by (simp add: all_pairs_iff pairs_Suc3 sq_error64_def line_d64 f_sub_def)
  have pairs: "list_all (\<lambda>(i, j). fle (sq_error64 [[0], [1], [3]] [[0], [1], [2]] i j)
                         (sq_error64 [[0], [1], [3]] [[0], [0], [0]] i j))
     [(0, 1), (0, 2), (1, 2)]"
    by (simp add: sq_error64_def line_d64 f_sub_def)
  show ?thesis
    using den closer pairs
      stress_monotone_float64 [of "[[0], [1], [3]]" "[[0], [1], [2]]" "[[0], [0], [0]]"
        left_to_right]
    by simp
qed






text \<open>
  C10. The function is not symmetric: the denominator comes from the second argument only, and
  there are valid datasets \<open>A\<close>, \<open>B\<close> of the same point count with
  \<open>stress(A, B) \<noteq> stress(B, A)\<close>. Here \<open>A = [[0],[1]]\<close> and \<open>B = [[0],[2]]\<close>: the numerator is
  \<open>1\<close> both ways, the denominator is \<open>4\<close> one way and \<open>1\<close> the other.
\<close>

theorem stress_not_symmetric:
  "\<exists>A B. is_2d A \<and> is_2d B \<and> length A = length B \<and> 2 \<le> length A \<and>
         sq_dist_sum A \<noteq> 0 \<and> sq_dist_sum B \<noteq> 0 \<and>
         stress A B = Inr (Fin (1 / 2)) \<and> stress B A = Inr (Fin 1) \<and>
         stress A B \<noteq> stress B A"
proof -
  let ?A = "[[0], [1::real]]" and ?B = "[[0], [2::real]]"
  have "stress ?A ?B = Inr (Fin (1 / 2))" and "stress ?B ?A = Inr (Fin 1)"
    by (simp_all add: stress_def pdist_def euclidean_def np_subtract_def np_square_def
        np_sum_def np_divide_def real_sqrt_divide)
  moreover have "sq_dist_sum ?A \<noteq> 0" and "sq_dist_sum ?B \<noteq> 0"
    by (simp_all add: eval_sums)
  ultimately show ?thesis
    by (intro exI [of _ ?A] exI [of _ ?B]) simp
qed

end
